theory Spec2Isabelle
  imports Complex_Main "HOL-Library.AList" "HOL-Library.Char_ord" "HOL-Library.List_Lexorder"
    "HOL-Library.Log_Nat"
begin

section \<open>The Qt driver of TagStudio: thumbnail queue, grid selection, pagination\<close>

text \<open>
  The development embeds the parts of \<^verbatim>\<open>src/qt/ts_qt.py\<close> that carry state:
  the worker loop \<^verbatim>\<open>Consumer.run\<close>, and the methods of \<^verbatim>\<open>QtDriver\<close> that
  change the selection, the page window, the thumbnail job queue and the list of
  recent libraries. Python exceptions are values; a method that mutates the driver
  before it raises returns the mutated driver together with the exception, because
  the Qt event loop keeps running with that driver.
\<close>

subsection \<open>Exceptions\<close>

datatype py_error =
    RuntimeError
  | AttributeError
  | IndexError
  | TypeError
  | ValueError
  | ZeroDivisionError
  | OverflowError
  | AssertionError

subsection \<open>The worker loop\<close>

text \<open>
  \<^verbatim>\<open>Consumer.run\<close> pops items from the shared queue for ever. An item is either the
  string \<^verbatim>\<open>MARKER_QUIT\<close> or a pair of a render function and its arguments. What a
  call does is decided by the renderer, which is a collaborator: \<open>call j\<close> is
  \<open>None\<close> when the call of job \<open>j\<close> returns and \<open>Some e\<close> when it raises \<open>e\<close>.
  The list argument holds the items that the successive \<^verbatim>\<open>queue.get()\<close> calls of
  this worker return; when it is used up the worker is blocked in \<^verbatim>\<open>get\<close>.
\<close>

datatype 'j queue_item = MARKER_QUIT | Job 'j

datatype run_outcome =
    Quit                 \<comment> \<open>the loop met the marker and left by \<^verbatim>\<open>break\<close>\<close>
  | Raised py_error      \<comment> \<open>an exception left \<^verbatim>\<open>run\<close>\<close>
  | Waiting              \<comment> \<open>blocked in \<^verbatim>\<open>queue.get()\<close> on an empty queue\<close>

record 'j run_result =
  outcome :: run_outcome
  invoked :: "'j list"              \<comment> \<open>the jobs whose render function was called, in order\<close>
  unconsumed :: "'j queue_item list" \<comment> \<open>the items this worker never dequeued\<close>

fun run :: "('j \<Rightarrow> py_error option) \<Rightarrow> 'j queue_item list \<Rightarrow> 'j run_result" where
  "run call [] = \<lparr>outcome = Waiting, invoked = [], unconsumed = []\<rparr>"
| "run call (MARKER_QUIT # q) = \<lparr>outcome = Quit, invoked = [], unconsumed = q\<rparr>"
| "run call (Job j # q) =
     (case call j of
        None \<Rightarrow> (let r = run call q in r\<lparr>invoked := j # invoked r\<rparr>)
      | Some e \<Rightarrow>
          if e = RuntimeError
          then (let r = run call q in r\<lparr>invoked := j # invoked r\<rparr>)
          else \<lparr>outcome = Raised e, invoked = [j], unconsumed = q\<rparr>)"

definition swallowed :: "('j \<Rightarrow> py_error option) \<Rightarrow> 'j \<Rightarrow> bool" where
  "swallowed call j \<longleftrightarrow> call j = None \<or> call j = Some RuntimeError"

subsection \<open>Python values and lists\<close>

text \<open>
  The selection is a list of \<^verbatim>\<open>int\<close>, and one line of the driver looks a tuple up in
  it. Python compares values of different types as unequal, which the constructors of
  \<open>pyval\<close> express. Of the enumeration \<^verbatim>\<open>ItemType\<close> the driver uses the member
  \<^verbatim>\<open>ENTRY\<close> only.
\<close>

datatype ItemType = ENTRY

datatype pyval = PyInt int | PyNone | PyItemType ItemType | PyTuple "pyval list"

definition py_in :: "pyval \<Rightarrow> pyval list \<Rightarrow> bool" where
  \<comment> \<open>\<^verbatim>\<open>x in xs\<close> on a list: some element equals \<open>x\<close>\<close>
  "py_in x xs \<longleftrightarrow> x \<in> set xs"

text \<open>
  \<^verbatim>\<open>xs[i]\<close> accepts \<open>-len(xs) \<le> i < len(xs)\<close>, counting a negative index from the
  end, and raises \<^verbatim>\<open>IndexError\<close> otherwise.
\<close>

definition py_index_ok :: "'a list \<Rightarrow> int \<Rightarrow> bool" where
  "py_index_ok xs i \<longleftrightarrow> - int (length xs) \<le> i \<and> i < int (length xs)"

definition py_pos :: "'a list \<Rightarrow> int \<Rightarrow> nat" where
  "py_pos xs i = nat (if i < 0 then int (length xs) + i else i)"

fun zip_longest :: "'a list \<Rightarrow> 'b list \<Rightarrow> ('a option \<times> 'b option) list" where
  "zip_longest [] [] = []"
| "zip_longest (x # xs) [] = (Some x, None) # zip_longest xs []"
| "zip_longest [] (y # ys) = (None, Some y) # zip_longest [] ys"
| "zip_longest (x # xs) (y # ys) = (Some x, Some y) # zip_longest xs ys"

text \<open>
  \<^verbatim>\<open>a / b\<close> on two integers is the double nearest to the quotient, ties going to the
  even significand; it raises \<^verbatim>\<open>ZeroDivisionError\<close> for a zero divisor and
  \<^verbatim>\<open>OverflowError\<close> when the rounded quotient is beyond the largest double. A double
  is kept as the rational it denotes. \<open>binade a b\<close> is the exponent \<open>e\<close> with
  \<open>2\<^sup>e \<le> a / b < 2\<^sup>e\<^sup>+\<^sup>1\<close>; a normal double has 53 significant bits, and below
  \<open>2\<^sup>-\<^sup>1\<^sup>0\<^sup>2\<^sup>2\<close> the spacing stays that of the exponent \<open>- 1022\<close>.
\<close>

definition round_half_even :: "rat \<Rightarrow> int" where
  "round_half_even x =
     (let f = \<lfloor>x\<rfloor>; r = x - of_int f
      in if r < 1 / 2 then f else if 1 / 2 < r then f + 1 else if even f then f else f + 1)"

definition binade :: "int \<Rightarrow> int \<Rightarrow> int" where
  "binade a b =
     (let d = bitlen a - bitlen b
      in if (2::rat) powi d \<le> of_int a / of_int b then d else d - 1)"

definition py_true_div :: "int \<Rightarrow> int \<Rightarrow> py_error + rat" where
  "py_true_div a b =
     (if b = 0 then Inl ZeroDivisionError
      else if a = 0 then Inr 0
      else
        (let x = (of_int a :: rat) / of_int b;
             e = max (binade \<bar>a\<bar> \<bar>b\<bar>) (- 1022);
             ulp = 2 powi (e - 52);
             r = sgn x * of_int (round_half_even (\<bar>x\<bar> / ulp)) * ulp
         in if 2 powi 1024 \<le> \<bar>r\<bar> then Inl OverflowError else Inr r))"

text \<open>
  A \<^verbatim>\<open>pathlib\<close> path, as parsed: whether it has a root, and its components (no
  empty and no \<^verbatim>\<open>.\<close> component; POSIX flavour, without drives). \<^verbatim>\<open>p / q\<close> is
  \<open>q\<close> when \<open>q\<close> has a root, and \<open>p\<close> with the components of \<open>q\<close> appended
  otherwise.
\<close>

datatype path = Path (has_root: bool) (parts: "string list")

definition path_join :: "path \<Rightarrow> path \<Rightarrow> path" where
  \<comment> \<open>\<^verbatim>\<open>self.lib.library_dir / entry.path\<close>\<close>
  "path_join p q = (if has_root q then q else Path (has_root p) (parts p @ parts q))"

subsection \<open>The state of the driver\<close>

record entry =
  entry_id :: int
  entry_path :: path
  entry_tags :: "int list"

text \<open>
  A render job is the tuple that \<^verbatim>\<open>update_thumbs\<close> puts on the queue: the bound
  method \<^verbatim>\<open>item_thumb.renderer.render\<close>, named here by the grid index of its
  thumbnail, and the six arguments. The timestamp is \<^verbatim>\<open>sys.float_info.max\<close> or a
  reading of \<^verbatim>\<open>time.time()\<close>; the file path is a string (the empty one of a
  placeholder) or a path.
\<close>

datatype timestamp = Float_max | At rat

datatype job_path = Str string | PathObj path

record render_job =
  renderer :: nat
  job_timestamp :: timestamp
  job_filepath :: job_path
  base_size :: "int \<times> int"
  job_ratio :: rat
  is_loading :: bool
  is_grid_thumb :: bool

text \<open>
  Of a thumbnail widget the model keeps what the driver sets: whether it is shown, its
  mode, its item id and the selection border of its button. Badges and the click
  handler are presentation and are left out.
\<close>

record item_thumb =
  visible :: bool
  mode :: "ItemType option"
  item_id :: pyval
  border_selected :: bool

record FilterState =
  page_index :: int
  page_size :: int
  query :: string

record search_result =
  items :: "entry list"
  total_count :: int

text \<open>
  The library is a collaborator. The driver reads \<^verbatim>\<open>library_dir\<close> and
  \<^verbatim>\<open>engine\<close> and calls \<^verbatim>\<open>search_library\<close> and \<^verbatim>\<open>close\<close>.
\<close>

record library =
  library_dir :: "path option"
  engine :: bool
  search_library :: "FilterState \<Rightarrow> search_result"

definition lib_close :: "library \<Rightarrow> library" where
  \<comment> \<open>Modelled from the spec: \<^verbatim>\<open>Library.close\<close> is not part of the excerpt; after
      \<^verbatim>\<open>close_library\<close> no library is open.\<close>
  "lib_close l = l\<lparr>library_dir := None, engine := False\<rparr>"

text \<open>
  \<^verbatim>\<open>time.time()\<close> is an input: \<open>time_readings d n\<close> is what the \<open>n\<close>-th call
  returns, and \<open>time_calls d\<close> counts the calls made so far.
\<close>

record driver =
  lib :: library
  frame_content :: "entry option list"
  filter_state :: FilterState
  pages_count :: int
  thumb_size :: int
  thumb_job_queue :: "render_job list"
  update_cutoff :: rat
  selected :: "int list"
  item_thumbs :: "item_thumb list"
  device_pixel_ratio :: rat
  time_readings :: "nat \<Rightarrow> rat"
  time_calls :: nat

definition time_time :: "driver \<Rightarrow> rat \<times> driver" where
  "time_time d = (time_readings d (time_calls d), d\<lparr>time_calls := Suc (time_calls d)\<rparr>)"

definition put :: "render_job \<Rightarrow> driver \<Rightarrow> driver" where
  \<comment> \<open>\<^verbatim>\<open>Queue.put\<close> on an unbounded FIFO queue\<close>
  "put job d = d\<lparr>thumb_job_queue := thumb_job_queue d @ [job]\<rparr>"

definition upd_thumb :: "nat \<Rightarrow> (item_thumb \<Rightarrow> item_thumb) \<Rightarrow> driver \<Rightarrow> driver" where
  \<comment> \<open>a method call on the widget object \<^verbatim>\<open>item_thumbs[idx]\<close>, \<open>idx\<close> in range\<close>
  "upd_thumb idx f d = d\<lparr>item_thumbs := (item_thumbs d)[idx := f (item_thumbs d ! idx)]\<rparr>"

definition set_selected_at :: "int \<Rightarrow> bool \<Rightarrow> driver \<Rightarrow> driver \<times> py_error option" where
  \<comment> \<open>\<^verbatim>\<open>self.item_thumbs[i].thumb_button.set_selected(b)\<close>\<close>
  "set_selected_at i b d =
     (if py_index_ok (item_thumbs d) i
      then (upd_thumb (py_pos (item_thumbs d) i) (\<lambda>t. t\<lparr>border_selected := b\<rparr>) d, None)
      else (d, Some IndexError))"

fun mark_selected :: "int list \<Rightarrow> driver \<Rightarrow> driver \<times> py_error option" where
  \<comment> \<open>\<^verbatim>\<open>for idx in idxs: self.item_thumbs[idx].thumb_button.set_selected(True)\<close>\<close>
  "mark_selected [] d = (d, None)"
| "mark_selected (idx # idxs) d =
     (case set_selected_at idx True d of
        (d', Some e) \<Rightarrow> (d', Some e)
      | (d', None) \<Rightarrow> mark_selected idxs d')"

subsection \<open>Selection\<close>

text \<open>
  \<^verbatim>\<open>select_item\<close> assigns \<^verbatim>\<open>self.selected\<close> before it touches the widgets, so the
  new selection stands also when a widget index is out of range. Its tail compares
  item ids with the builtin \<^verbatim>\<open>id\<close> and updates the menu and the preview panel; none
  of that changes the state kept here.
\<close>

definition select_item :: "int \<Rightarrow> bool \<Rightarrow> bool \<Rightarrow> driver \<Rightarrow> driver \<times> py_error option" where
  "select_item grid_index append' bridge d =
     (if append' then
        (if grid_index \<notin> set (selected d)
         then set_selected_at grid_index True (d\<lparr>selected := selected d @ [grid_index]\<rparr>)
         else set_selected_at grid_index False
                (d\<lparr>selected := remove1 grid_index (selected d)\<rparr>))
      else if bridge \<and> selected d \<noteq> [] then
        (let select_from = Min (set (selected d));
             select_to = Max (set (selected d));
             index_range = (if select_to < grid_index
                            then [select_from..grid_index]
                            else [grid_index..select_to])
         in mark_selected index_range (d\<lparr>selected := index_range\<rparr>))
      else
        (d\<lparr>selected := [grid_index],
           item_thumbs :=
             map (\<lambda>(thumb_idx, item_thumb).
                    item_thumb\<lparr>border_selected := (int thumb_idx = grid_index)\<rparr>)
                 (enumerate 0 (item_thumbs d))\<rparr>, None))"

definition select_all_action_callback :: "driver \<Rightarrow> driver \<times> py_error option" where
  "select_all_action_callback d =
     (let idxs = [0..int (length (frame_content d)) - 1]
      in mark_selected idxs (d\<lparr>selected := idxs\<rparr>))"

definition clear_select_action_callback :: "driver \<Rightarrow> driver" where
  "clear_select_action_callback d =
     d\<lparr>selected := [],
       item_thumbs := map (\<lambda>item. item\<lparr>border_selected := False\<rparr>) (item_thumbs d)\<rparr>"

definition remove_grid_item :: "int \<Rightarrow> driver \<Rightarrow> driver \<times> py_error option" where
  "remove_grid_item grid_idx d =
     (if \<not> py_index_ok (frame_content d) grid_idx then (d, Some IndexError)
      else
        (let d1 = d\<lparr>frame_content :=
                      (frame_content d)[py_pos (frame_content d) grid_idx := None]\<rparr>
         in if py_index_ok (item_thumbs d1) grid_idx
            then (upd_thumb (py_pos (item_thumbs d1) grid_idx) (\<lambda>t. t\<lparr>visible := False\<rparr>) d1,
                  None)
            else (d1, Some IndexError)))"

subsection \<open>Rendering a page\<close>

definition mode_val :: "item_thumb \<Rightarrow> pyval" where
  "mode_val t = (case mode t of None \<Rightarrow> PyNone | Some m \<Rightarrow> PyItemType m)"

definition placeholder_job :: "nat \<Rightarrow> driver \<Rightarrow> render_job" where
  "placeholder_job idx d =
     \<lparr>renderer = idx, job_timestamp = Float_max, job_filepath = Str [],
      base_size = (thumb_size d, thumb_size d), job_ratio = device_pixel_ratio d,
      is_loading = True, is_grid_thumb = True\<rparr>"

definition content_job :: "nat \<Rightarrow> rat \<Rightarrow> path \<Rightarrow> driver \<Rightarrow> render_job" where
  "content_job idx now filepath d =
     \<lparr>renderer = idx, job_timestamp = At now, job_filepath = PathObj filepath,
      base_size = (thumb_size d, thumb_size d), job_ratio = device_pixel_ratio d,
      is_loading = False, is_grid_thumb = True\<rparr>"

text \<open>
  The two loops of \<^verbatim>\<open>update_thumbs\<close> run over
  \<^verbatim>\<open>zip_longest(self.frame_content, self.item_thumbs)\<close>. The entry of a pair is
  \<open>None\<close> when the frame is shorter than the grid, \<open>Some None\<close> for a slot emptied by
  \<^verbatim>\<open>remove_grid_item\<close>; both are falsy. The widget of a pair is \<open>None\<close> when the
  frame is longer than the grid, and then the first method call on it raises
  \<^verbatim>\<open>AttributeError\<close>. The widget objects are mutated in place, so the loops address
  them by their index in \<open>item_thumbs\<close>.
\<close>

fun show_placeholders ::
  "(nat \<times> entry option option \<times> item_thumb option) list \<Rightarrow> driver \<Rightarrow> driver \<times> py_error option"
where
  "show_placeholders [] d = (d, None)"
| "show_placeholders ((idx, entry, item_thumb) # rest) d =
     (case entry of
        Some (Some e) \<Rightarrow>
          (case item_thumb of
             None \<Rightarrow> (d, Some AttributeError)
           | Some _ \<Rightarrow>
               show_placeholders rest
                 (put (placeholder_job idx d)
                    (upd_thumb idx
                       (\<lambda>t. t\<lparr>mode := Some ENTRY, item_id := PyInt (entry_id e),
                               visible := True\<rparr>) d)))
      | _ \<Rightarrow>
          (case item_thumb of
             None \<Rightarrow> (d, Some AttributeError)
           | Some _ \<Rightarrow> show_placeholders rest (upd_thumb idx (\<lambda>t. t\<lparr>visible := False\<rparr>) d)))"

fun show_rendered ::
  "(nat \<times> entry option option \<times> item_thumb option) list \<Rightarrow> driver \<Rightarrow> driver \<times> py_error option"
where
  "show_rendered [] d = (d, None)"
| "show_rendered ((idx, entry, item_thumb) # rest) d =
     (case entry of
        Some (Some e) \<Rightarrow>
          (case library_dir (lib d) of
             None \<Rightarrow> (d, Some TypeError)
           | Some dir \<Rightarrow>
               (let filepath = path_join dir (entry_path e)
                in case item_thumb of
                     None \<Rightarrow> (d, Some AttributeError)
                   | Some _ \<Rightarrow>
                       (let (now1, d1) = time_time d;
                            d2 = put (content_job idx now1 filepath d1) d1;
                            it = item_thumbs d2 ! idx;
                            is_selected = py_in (PyTuple [mode_val it, item_id it])
                                                (map PyInt (selected d2));
                            d3 = upd_thumb idx (\<lambda>t. t\<lparr>border_selected := is_selected\<rparr>) d2;
                            (now2, d4) = time_time d3
                        in show_rendered rest (put (content_job idx now2 filepath d4) d4))))
      | _ \<Rightarrow> show_rendered rest d)"

text \<open>
  \<^verbatim>\<open>update_thumbs\<close> first empties the queue and sets
  \<^verbatim>\<open>ItemThumb.update_cutoff\<close> to the time of the call, both inside
  \<^verbatim>\<open>with self.thumb_job_queue.mutex\<close>; the model runs one thread, for which the
  block is the two assignments. A result is discarded when its timestamp is below the
  cutoff; the cutoff is a reading of the clock, a double, and no double is above
  \<^verbatim>\<open>sys.float_info.max\<close>.
\<close>

definition cancel_thumb_jobs :: "driver \<Rightarrow> driver" where
  \<comment> \<open>the \<^verbatim>\<open>with\<close> block at the head of \<^verbatim>\<open>update_thumbs\<close>\<close>
  "cancel_thumb_jobs d =
     (let (now, d0) = time_time d
      in d0\<lparr>thumb_job_queue := [], update_cutoff := now\<rparr>)"


definition update_thumbs :: "driver \<Rightarrow> driver \<times> py_error option" where
  "update_thumbs d =
     (let d1 = cancel_thumb_jobs d;
          slots = enumerate 0 (zip_longest (frame_content d1) (item_thumbs d1))
      in case show_placeholders slots d1 of
           (d2, Some e) \<Rightarrow> (d2, Some e)
         | (d2, None) \<Rightarrow> show_rendered slots d2)"

subsection \<open>Searching and paging\<close>

text \<open>
  \<^verbatim>\<open>math.ceil(results.total_count / self.filter.page_size)\<close> divides two integers
  into a double and rounds that up to an integer.
\<close>

definition filter_items :: "FilterState option \<Rightarrow> driver \<Rightarrow> driver \<times> py_error option" where
  "filter_items f d =
     (if library_dir (lib d) = None then (d, None)
      else if \<not> engine (lib d) then (d, Some AssertionError)
      else
        (let d1 = (case f of None \<Rightarrow> d | Some f' \<Rightarrow> d\<lparr>filter_state := f'\<rparr>);
             (start_time, d2) = time_time d1;
             results = search_library (lib d2) (filter_state d2);
             (end_time, d3) = time_time d2;
             d4 = d3\<lparr>frame_content := map Some (items results)\<rparr>
         in case update_thumbs d4 of
              (d5, Some e) \<Rightarrow> (d5, Some e)
            | (d5, None) \<Rightarrow>
                (case py_true_div (total_count results) (page_size (filter_state d5)) of
                   Inl e \<Rightarrow> (d5, Some e)
                 | Inr q \<Rightarrow> (d5\<lparr>pages_count := \<lceil>q\<rceil>\<rparr>, None))))"

definition page_move :: "int option \<Rightarrow> int option \<Rightarrow> driver \<Rightarrow> driver \<times> py_error option" where
  "page_move delta page_id d =
     (case (case page_id of
              Some p \<Rightarrow> Some p
            | None \<Rightarrow> (case delta of
                         Some dl \<Rightarrow> Some (page_index (filter_state d) + dl)
                       | None \<Rightarrow> None)) of
        None \<Rightarrow> (d, Some TypeError)
      | Some requested \<Rightarrow>
          (let page_index' = max 0 (min requested (pages_count d - 1))
           in filter_items None
                (d\<lparr>filter_state := (filter_state d)\<lparr>page_index := page_index'\<rparr>\<rparr>)))"

definition close_library :: "bool \<Rightarrow> driver \<Rightarrow> driver" where
  "close_library is_shutdown d =
     (if library_dir (lib d) = None then d
      else
        (let (start_time, d1) = time_time d;
             d2 = d1\<lparr>lib := lib_close (lib d1), thumb_job_queue := []\<rparr>
         in if is_shutdown then d2
            else
              (let d3 = d2\<lparr>selected := [], frame_content := [],
                          item_thumbs := map (\<lambda>x. x\<lparr>mode := None\<rparr>) (item_thumbs d2)\<rparr>;
                   (end_time, d4) = time_time d3
               in d4)))"

subsection \<open>Populated slots and the selection\<close>

definition populated :: "driver \<Rightarrow> int \<Rightarrow> bool" where
  "populated d i \<longleftrightarrow>
     0 \<le> i \<and> i < int (length (frame_content d)) \<and> frame_content d ! nat i \<noteq> None"

definition selection_inv :: "driver \<Rightarrow> bool" where
  "selection_inv d \<longleftrightarrow> (\<forall>i \<in> set (selected d). populated d i)"

definition jobs_of :: "nat \<Rightarrow> render_job list \<Rightarrow> render_job list" where
  \<comment> \<open>the jobs of a queue that render into the thumbnail of slot \<open>idx\<close>, in queue order\<close>
  "jobs_of idx q = filter (\<lambda>j. renderer j = idx) q"

subsection \<open>The list of recent libraries\<close>

text \<open>
  The settings group \<^verbatim>\<open>LIBS_LIST\<close> is a key/value store; it is represented by its
  pairs, in the order in which they were written. \<^verbatim>\<open>Path(s)\<close> and \<^verbatim>\<open>str(p)\<close>
  belong to the standard library and are parameters, as is the key
  \<^verbatim>\<open>str(time.time())\<close> of the call. Keys are strings and are compared as strings.
\<close>

definition item_limit :: nat where
  "item_limit = 5"

definition py_sorted_reverse :: "('k::linorder \<times> 'v) list \<Rightarrow> ('k \<times> 'v) list" where
  \<comment> \<open>\<^verbatim>\<open>sorted(items, key=lambda item: item[0], reverse=True)\<close>, a stable sort\<close>
  "py_sorted_reverse xs = rev (sort_key fst (rev xs))"

definition all_libs ::
  "(string \<Rightarrow> 'p) \<Rightarrow> ('p \<Rightarrow> string) \<Rightarrow> string \<Rightarrow> string \<Rightarrow> (string \<times> string) list
     \<Rightarrow> (string \<times> string) list" where
  \<comment> \<open>the dictionary built by the loop over \<^verbatim>\<open>self.settings.allKeys()\<close>\<close>
  "all_libs mk_path path_str now_key path_arg settings =
     (let path = mk_path path_arg
      in fold (\<lambda>(item_key, item_path) libs.
                 if mk_path item_path \<noteq> path then AList.update item_key item_path libs
                 else libs)
           settings [(now_key, path_str path)])"

definition update_libs_list ::
  "(string \<Rightarrow> 'p) \<Rightarrow> ('p \<Rightarrow> string) \<Rightarrow> string \<Rightarrow> string \<Rightarrow> (string \<times> string) list
     \<Rightarrow> (string \<times> string) list" where
  "update_libs_list mk_path path_str now_key path_arg settings =
     (let all_libs_list = py_sorted_reverse (all_libs mk_path path_str now_key path_arg settings)
      in fold (\<lambda>(item_key, item_value) store. AList.update item_key item_value store)
           (take item_limit all_libs_list) [])"

subsection \<open>Notions used in the statements\<close>

text \<open>
  A frame without emptied slots, the populated slots of the pairs that the loops of
  \<^verbatim>\<open>update_thumbs\<close> run over, the filter that a search uses and the state in which
  \<^verbatim>\<open>filter_items\<close> calls \<^verbatim>\<open>update_thumbs\<close>; \<open>view_eq\<close> relates two states
  that differ in the widgets, the queue, the cutoff and the clock only.
\<close>

definition no_holes :: "driver \<Rightarrow> bool" where
  "no_holes d \<longleftrightarrow> None \<notin> set (frame_content d)"

definition is_populated :: "nat \<times> entry option option \<times> item_thumb option \<Rightarrow> bool" where
  "is_populated slot = (case fst (snd slot) of Some (Some e) \<Rightarrow> True | _ \<Rightarrow> False)"

definition populated_idxs ::
  "(nat \<times> entry option option \<times> item_thumb option) list \<Rightarrow> nat list" where
  "populated_idxs slots = map fst (filter is_populated slots)"

definition view_eq :: "driver \<Rightarrow> driver \<Rightarrow> bool" where
  "view_eq d d' \<longleftrightarrow>
     lib d' = lib d \<and> frame_content d' = frame_content d \<and> filter_state d' = filter_state d
     \<and> pages_count d' = pages_count d \<and> selected d' = selected d
     \<and> thumb_size d' = thumb_size d \<and> device_pixel_ratio d' = device_pixel_ratio d
     \<and> time_readings d' = time_readings d
     \<and> length (item_thumbs d') = length (item_thumbs d)"

definition widgets_present ::
  "(nat \<times> entry option option \<times> item_thumb option) list \<Rightarrow> bool" where
  "widgets_present slots \<longleftrightarrow> (\<forall>slot \<in> set slots. snd (snd slot) \<noteq> None)"

definition searched :: "FilterState option \<Rightarrow> driver \<Rightarrow> FilterState" where
  "searched f d = (case f of None \<Rightarrow> filter_state d | Some f' \<Rightarrow> f')"

definition fetched :: "FilterState option \<Rightarrow> driver \<Rightarrow> driver" where
  "fetched f d =
     d\<lparr>filter_state := searched f d, time_calls := Suc (Suc (time_calls d)),
       frame_content := map Some (items (search_library (lib d) (searched f d)))\<rparr>"

text \<open>
  A job is stamped within \<open>lo\<close> and \<open>hi\<close> when it is a placeholder with the greatest
  double for its timestamp, or carries a reading of the clock taken by a call from
  \<open>lo\<close> to below \<open>hi\<close>.
\<close>

definition stamped_within :: "(nat \<Rightarrow> rat) \<Rightarrow> nat \<Rightarrow> nat \<Rightarrow> render_job \<Rightarrow> bool" where
  "stamped_within clock lo hi j \<longleftrightarrow>
     (if is_loading j then job_timestamp j = Float_max
      else \<exists>m. lo \<le> m \<and> m < hi \<and> job_timestamp j = At (clock m))"

definition queue_stamped :: "nat \<Rightarrow> driver \<Rightarrow> bool" where
  "queue_stamped lo d \<longleftrightarrow>
     (\<forall>j \<in> set (thumb_job_queue d). stamped_within (time_readings d) lo (time_calls d) j)"

subsection \<open>An example state\<close>

text \<open>
  A library of 23 entries shown ten to a page, with the first page on the grid; the
  states reached from it by a search without results, by a click on slot 5 or slot 0
  and by a move to the last page; a settings group of six recent libraries.
\<close>

definition example_entry :: "int \<Rightarrow> entry" where
  "example_entry n =
     \<lparr>entry_id = n, entry_path = Path False [''img.png''], entry_tags = []\<rparr>"

definition example_library :: library where
  "example_library =
     \<lparr>library_dir = Some (Path True [''lib'']), engine = True,
      search_library =
        (\<lambda>f. \<lparr>items = map example_entry
                          (filter (\<lambda>n. n < 23) [page_index f * 10..page_index f * 10 + 9]),
               total_count = 23\<rparr>)\<rparr>"

definition example_driver :: driver where
  "example_driver =
     \<lparr>lib = example_library,
      frame_content = map (\<lambda>n. Some (example_entry n)) [0..9],
      filter_state = \<lparr>page_index = 0, page_size = 10, query = []\<rparr>,
      pages_count = 3, thumb_size = 128, thumb_job_queue = [], update_cutoff = 0,
      selected = [],
      item_thumbs = replicate 10
        \<lparr>visible = True, mode = Some ENTRY, item_id = PyNone, border_selected = False\<rparr>,
      device_pixel_ratio = 1, time_readings = (\<lambda>n. of_nat n), time_calls = 0\<rparr>"


definition slot_5_selected :: driver where
  "slot_5_selected = fst (select_item 5 False False example_driver)"

definition last_page :: driver where
  "last_page = fst (page_move None (Some 2) example_driver)"

definition slot_0_selected :: driver where
  "slot_0_selected = fst (select_item 0 False False example_driver)"

definition example_settings :: "(string \<times> string) list" where
  "example_settings =
     [(''1700000006.5'', ''/b''), (''1700000005.25'', ''/a/''), (''1700000004.0'', ''/c''),
      (''1700000003.0'', ''/d''), (''1700000002.0'', ''/e''), (''1700000001.0'', ''/f'')]"

definition example_Path :: "string \<Rightarrow> string" where
  \<comment> \<open>a path in normal form: without the trailing separator\<close>
  "example_Path s = (if 1 < length s \<and> last s = CHR ''/'' then butlast s else s)"




definition later_key_settings :: "(string \<times> string) list" where
  "later_key_settings = (''1700000009.0'', ''/z'') # example_settings"


section \<open>Properties\<close>

subsection \<open>Properties of the worker loop\<close>

lemma run_swallowed_prefix:
  "\<forall>j \<in> set js. swallowed call j \<Longrightarrow>
   run call (map Job js @ q) =
     (let r = run call q in r\<lparr>invoked := js @ invoked r\<rparr>)"
  by (induction js) (auto simp: swallowed_def Let_def)

text \<open>
  Claim C2, as stated: every exception other than the tear-down failure is surfaced and
  the loop continues to the next job. The loop has one handler, for
  \<^verbatim>\<open>RuntimeError\<close>; a \<^verbatim>\<open>ValueError\<close> raised by the first of two jobs leaves
  \<^verbatim>\<open>run\<close>, and the second job is never called.
\<close>

theorem C2_run_other_exception_counterexample:
  "run (\<lambda>j. if j = (0::nat) then Some ValueError else None) [Job 0, Job 1, MARKER_QUIT]
     = \<lparr>outcome = Raised ValueError, invoked = [0], unconsumed = [Job 1, MARKER_QUIT]\<rparr>"
  by simp

text \<open>
  Claim C2, amended: jobs that return or raise \<^verbatim>\<open>RuntimeError\<close> are all called, one
  after the other, and the loop goes on to the item behind them; the first job that
  raises anything else ends the loop with that exception, and no later item is
  dequeued by this worker. The marker ends the loop normally.
\<close>

theorem C2_run_swallows_only_RuntimeError:
  assumes "\<forall>j \<in> set js. swallowed call j"
  shows "run call (map Job js @ MARKER_QUIT # q)
           = \<lparr>outcome = Quit, invoked = js, unconsumed = q\<rparr>
       \<and> (\<forall>e. call k = Some e \<and> e \<noteq> RuntimeError \<longrightarrow>
            run call (map Job js @ Job k # q)
              = \<lparr>outcome = Raised e, invoked = js @ [k], unconsumed = q\<rparr>)
       \<and> run call (map Job js) = \<lparr>outcome = Waiting, invoked = js, unconsumed = []\<rparr>"
proof -
  have "run call (map Job js @ []) = \<lparr>outcome = Waiting, invoked = js, unconsumed = []\<rparr>"
    using assms by (simp only: run_swallowed_prefix) simp
  then show ?thesis
    using assms by (simp add: run_swallowed_prefix)
qed

theorem C2_run_swallows_only_RuntimeError_witness:
  "run (\<lambda>j. if j = (1::nat) then Some RuntimeError else if j = 2 then Some TypeError else None)
       [Job 0, Job 1, MARKER_QUIT, Job 3]
     = \<lparr>outcome = Quit, invoked = [0, 1], unconsumed = [Job 3]\<rparr>
   \<and> run (\<lambda>j. if j = (1::nat) then Some RuntimeError else if j = 2 then Some TypeError else None)
       [Job 0, Job 1, Job 2, Job 3]
     = \<lparr>outcome = Raised TypeError, invoked = [0, 1, 2], unconsumed = [Job 3]\<rparr>"
  using C2_run_swallows_only_RuntimeError
    [of "[0, 1]" "\<lambda>j. if j = (1::nat) then Some RuntimeError else if j = 2 then Some TypeError else None"
        "[Job 3]" 2]
  by (simp add: swallowed_def)

subsection \<open>Selecting by click\<close>

lemma selected_upd_thumb [simp]: "selected (upd_thumb idx f d) = selected d"
  by (simp add: upd_thumb_def)

lemma selected_set_selected_at [simp]: "selected (fst (set_selected_at i b d)) = selected d"
  by (simp add: set_selected_at_def)

lemma selected_mark_selected [simp]: "selected (fst (mark_selected idxs d)) = selected d"
proof (induction idxs arbitrary: d)
  case Nil
  show ?case by simp
next
  case (Cons idx idxs)
  show ?case
  proof (cases "py_index_ok (item_thumbs d) idx")
    case True
    then show ?thesis using Cons.IH by (simp add: set_selected_at_def)
  next
    case False
    then show ?thesis by (simp add: set_selected_at_def)
  qed
qed

lemma selected_select_item:
  "selected (fst (select_item i a b d)) =
     (if a then (if i \<notin> set (selected d) then selected d @ [i] else remove1 i (selected d))
      else if b \<and> selected d \<noteq> [] then
        (if Max (set (selected d)) < i then [Min (set (selected d))..i]
         else [i..Max (set (selected d))])
      else [i])"
  by (simp add: select_item_def Let_def)

text \<open>
  Claim C6: with a non-empty selection and neither modifier but the bridge one,
  \<^verbatim>\<open>select_item\<close> replaces the selection by a contiguous inclusive range that ends
  at the clicked index: from the least selected index up to the click when the click
  lies right of the greatest selected index, from the click up to the greatest selected
  index otherwise. The selection is assigned before the widgets are touched, so this
  holds for every clicked index.
\<close>

theorem C6_select_item_bridge_range:
  assumes "selected d \<noteq> []"
  shows "selected (fst (select_item i False True d)) =
           (if Max (set (selected d)) < i then [Min (set (selected d))..i]
            else [i..Max (set (selected d))])
       \<and> set (selected (fst (select_item i False True d))) =
           (if Max (set (selected d)) < i then {Min (set (selected d))..i}
            else {i..Max (set (selected d))})"
  using assms by (simp add: selected_select_item)

theorem C6_select_item_bridge_range_witness:
  "selected (fst (select_item 0 False True (example_driver\<lparr>selected := [2, 5]\<rparr>)))
     = [0, 1, 2, 3, 4, 5]
   \<and> selected (fst (select_item 8 False True (example_driver\<lparr>selected := [2, 5]\<rparr>)))
     = [2, 3, 4, 5, 6, 7, 8]"
  using C6_select_item_bridge_range [of "example_driver\<lparr>selected := [2, 5]\<rparr>" 0]
        C6_select_item_bridge_range [of "example_driver\<lparr>selected := [2, 5]\<rparr>" 8]
  by (simp add: upto_rec1)

text \<open>
  Claim C7: in append mode \<^verbatim>\<open>select_item\<close> toggles the clicked index: it is
  removed when it was selected and added when it was not, and every other member
  stays. The selection list never holds an index twice.
\<close>

theorem C7_select_item_append_toggles:
  assumes "distinct (selected d)"
  shows "set (selected (fst (select_item i True bridge d))) =
           (if i \<in> set (selected d) then set (selected d) - {i}
            else insert i (set (selected d)))
       \<and> distinct (selected (fst (select_item i True bridge d)))"
  using assms by (simp add: selected_select_item)

theorem C7_select_item_append_toggles_witness:
  "set (selected (fst (select_item 5 True False (example_driver\<lparr>selected := [2, 5, 7]\<rparr>))))
     = {2, 7}
   \<and> set (selected (fst (select_item 4 True False (example_driver\<lparr>selected := [2, 5, 7]\<rparr>))))
     = {2, 4, 5, 7}"
  using C7_select_item_append_toggles [of "example_driver\<lparr>selected := [2, 5, 7]\<rparr>" 5 False]
        C7_select_item_append_toggles [of "example_driver\<lparr>selected := [2, 5, 7]\<rparr>" 4 False]
  by auto

text \<open>
  The selection lists that the driver builds hold no index twice: the operations on the
  selection keep the list duplicate-free.
\<close>

lemma distinct_selected_select_item:
  "distinct (selected d) \<Longrightarrow> distinct (selected (fst (select_item i a b d)))"
  by (simp add: selected_select_item)

lemma distinct_selected_select_all:
  "distinct (selected (fst (select_all_action_callback d)))"
  by (simp add: select_all_action_callback_def Let_def)

lemma distinct_selected_clear_select:
  "distinct (selected (clear_select_action_callback d))"
  by (simp add: clear_select_action_callback_def)

subsection \<open>What rendering and searching leave alone\<close>

lemma view_eq_refl [simp]: "view_eq d d"
  by (simp add: view_eq_def)

lemma view_eq_trans: "view_eq a b \<Longrightarrow> view_eq b c \<Longrightarrow> view_eq a c"
  by (simp add: view_eq_def)

lemma view_eq_upd_thumb [simp]: "view_eq d (upd_thumb idx f d)"
  by (simp add: view_eq_def upd_thumb_def)

lemma view_eq_put [simp]: "view_eq d (put j d)"
  by (simp add: view_eq_def put_def)

lemma view_eq_time_time [simp]: "view_eq d (snd (time_time d))"
  by (simp add: view_eq_def time_time_def)

lemma view_eq_show_placeholders: "view_eq d (fst (show_placeholders slots d))"
proof (induction slots arbitrary: d)
  case Nil
  show ?case by simp
next
  case (Cons slot rest)
  obtain idx entry item_thumb where slot: "slot = (idx, entry, item_thumb)"
    by (cases slot) auto
  have step: "view_eq d d' \<Longrightarrow> view_eq d (fst (show_placeholders rest d'))" for d'
    using Cons.IH [of d'] by (rule view_eq_trans [rotated])
  have a: "view_eq d (upd_thumb idx f d)" for f by simp
  have b: "view_eq d (put j (upd_thumb idx f d))" for j f
    by (simp add: view_eq_def put_def upd_thumb_def)
  show ?case
    unfolding slot by (simp add: step a b split: option.splits)
qed

lemma view_eq_show_rendered: "view_eq d (fst (show_rendered slots d))"
proof (induction slots arbitrary: d)
  case Nil
  show ?case by simp
next
  case (Cons slot rest)
  obtain idx entry item_thumb where slot: "slot = (idx, entry, item_thumb)"
    by (cases slot) auto
  have step: "view_eq d d' \<Longrightarrow> view_eq d (fst (show_rendered rest d'))" for d'
    using Cons.IH [of d'] by (rule view_eq_trans [rotated])
  have a: "view_eq d (put j (snd (time_time d)))" for j
    by (simp add: view_eq_def put_def time_time_def)
  have b: "view_eq d (put j' (snd (time_time (upd_thumb idx f (put j (snd (time_time d)))))))"
    for j j' f
    by (simp add: view_eq_def put_def time_time_def upd_thumb_def)
  show ?case
    unfolding slot
    by (simp add: step a b Let_def split_beta split: option.splits)
qed

lemma view_eq_update_thumbs: "view_eq d (fst (update_thumbs d))"
proof -
  define d1 where "d1 = cancel_thumb_jobs d"
  define slots where "slots = enumerate 0 (zip_longest (frame_content d1) (item_thumbs d1))"
  have 1: "view_eq d d1"
    by (simp add: d1_def cancel_thumb_jobs_def view_eq_def time_time_def)
  have 2: "view_eq d1 (fst (show_placeholders slots d1))"
    by (rule view_eq_show_placeholders)
  have 3: "view_eq (fst (show_placeholders slots d1)) (fst (show_rendered slots (fst (show_placeholders slots d1))))"
    by (rule view_eq_show_rendered)
  have "fst (update_thumbs d) =
          (case snd (show_placeholders slots d1) of
             Some e \<Rightarrow> fst (show_placeholders slots d1)
           | None \<Rightarrow> fst (show_rendered slots (fst (show_placeholders slots d1))))"
    by (simp add: update_thumbs_def d1_def slots_def Let_def split_beta split: option.splits)
  then show ?thesis
    using 1 2 3 by (auto split: option.splits intro: view_eq_trans)
qed

lemma filter_items_keeps:
  "selected (fst (filter_items f d)) = selected d
   \<and> filter_state (fst (filter_items f d)) =
       (if library_dir (lib d) = None \<or> \<not> engine (lib d) then filter_state d
        else case f of None \<Rightarrow> filter_state d | Some f' \<Rightarrow> f')
   \<and> lib (fst (filter_items f d)) = lib d"
proof -
  have "view_eq d4 (fst (update_thumbs d4))" for d4
    by (rule view_eq_update_thumbs)
  then have u: "selected (fst (update_thumbs d4)) = selected d4
     \<and> filter_state (fst (update_thumbs d4)) = filter_state d4
     \<and> lib (fst (update_thumbs d4)) = lib d4" for d4
    by (simp add: view_eq_def)
  show ?thesis
    by (simp add: filter_items_def Let_def split_beta time_time_def u
          split: option.splits prod.splits sum.splits)
qed

lemma zip_longest_widget:
  "length xs \<le> length ys \<Longrightarrow> (a, b) \<in> set (zip_longest xs ys) \<Longrightarrow> b \<noteq> None"
  by (induction xs ys rule: zip_longest.induct) auto

lemma widgets_present_enumerate:
  assumes "length xs \<le> length ys"
  shows "widgets_present (enumerate n (zip_longest xs ys))"
  unfolding widgets_present_def
proof
  fix slot assume "slot \<in> set (enumerate n (zip_longest xs ys))"
  then have "snd slot \<in> set (map snd (enumerate n (zip_longest xs ys)))"
    by (simp only: set_map) (rule imageI)
  then have "(fst (snd slot), snd (snd slot)) \<in> set (zip_longest xs ys)"
    by simp
  then show "snd (snd slot) \<noteq> None"
    by (rule zip_longest_widget [OF assms])
qed

lemma show_placeholders_ok:
  "widgets_present slots \<Longrightarrow> snd (show_placeholders slots d) = None"
proof (induction slots arbitrary: d)
  case Nil
  show ?case by simp
next
  case (Cons slot rest)
  obtain idx entry item_thumb where slot: "slot = (idx, entry, item_thumb)"
    by (cases slot) auto
  from Cons.prems have "item_thumb \<noteq> None" and rest: "widgets_present rest"
    by (simp_all add: widgets_present_def slot)
  then obtain t where "item_thumb = Some t" by auto
  then show ?case
    unfolding slot using Cons.IH [OF rest] by (simp split: option.splits)
qed

lemma show_rendered_ok:
  "widgets_present slots \<Longrightarrow> library_dir (lib d) \<noteq> None \<Longrightarrow>
   snd (show_rendered slots d) = None"
proof (induction slots arbitrary: d)
  case Nil
  show ?case by simp
next
  case (Cons slot rest)
  obtain idx entry item_thumb where slot: "slot = (idx, entry, item_thumb)"
    by (cases slot) auto
  from Cons.prems have "item_thumb \<noteq> None" and rest: "widgets_present rest"
    by (simp_all add: widgets_present_def slot)
  then obtain t where t: "item_thumb = Some t" by auto
  from Cons.prems obtain dir where dir: "library_dir (lib d) = Some dir" by auto
  have step: "lib d' = lib d \<Longrightarrow> snd (show_rendered rest d') = None" for d'
    using Cons.IH [OF rest, of d'] Cons.prems(2) by simp
  show ?case
    unfolding slot
    by (simp add: t dir step Let_def split_beta put_def time_time_def upd_thumb_def
             split: option.splits)
qed

lemma update_thumbs_ok:
  assumes "length (frame_content d) \<le> length (item_thumbs d)"
    and "library_dir (lib d) \<noteq> None"
  shows "snd (update_thumbs d) = None"
proof -
  define d1 where "d1 = cancel_thumb_jobs d"
  define slots where "slots = enumerate 0 (zip_longest (frame_content d1) (item_thumbs d1))"
  have d1: "frame_content d1 = frame_content d" "item_thumbs d1 = item_thumbs d" "lib d1 = lib d"
    by (simp_all add: d1_def cancel_thumb_jobs_def time_time_def)
  have wp: "widgets_present slots"
    unfolding slots_def using assms(1) by (simp add: widgets_present_enumerate d1)
  have p: "snd (show_placeholders slots d1) = None"
    using wp by (rule show_placeholders_ok)
  have "lib (fst (show_placeholders slots d1)) = lib d"
    using view_eq_show_placeholders [of d1 slots] d1 by (simp add: view_eq_def)
  then have r: "snd (show_rendered slots (fst (show_placeholders slots d1))) = None"
    using wp assms(2) by (simp add: show_rendered_ok)
  have "snd (update_thumbs d) =
          (case snd (show_placeholders slots d1) of
             Some e \<Rightarrow> Some e
           | None \<Rightarrow> snd (show_rendered slots (fst (show_placeholders slots d1))))"
    by (simp add: update_thumbs_def d1_def slots_def Let_def split_beta split: option.splits)
  then show ?thesis by (simp add: p r)
qed

subsection \<open>Division into a double\<close>

lemma round_half_even_error: "\<bar>of_int (round_half_even x) - x\<bar> \<le> 1 / 2"
proof -
  have "of_int \<lfloor>x\<rfloor> \<le> x" "x < of_int \<lfloor>x\<rfloor> + 1" by linarith+
  then show ?thesis
    by (auto simp: round_half_even_def Let_def abs_le_iff)
qed

lemma round_half_even_of_int [simp]: "round_half_even (of_int m) = m"
  by (simp add: round_half_even_def)

lemma binade_bounds:
  assumes "0 < a" and "0 < b"
  shows "(2::rat) powi binade a b \<le> of_int a / of_int b"
    and "of_int a / of_int b < (2::rat) powi (binade a b + 1)"
proof -
  define d where "d = bitlen a - bitlen b"
  from assms have pa: "1 \<le> bitlen a" and pb: "1 \<le> bitlen b"
    by (auto simp: bitlen_alt_def)
  from bitlen_bounds [OF assms(1)]
  have a: "(2::rat) powi (bitlen a - 1) \<le> of_int a" "of_int a < (2::rat) powi bitlen a"
    using pa
    by (simp_all add: power_int_def)
  from bitlen_bounds [OF assms(2)]
  have b: "(2::rat) powi (bitlen b - 1) \<le> of_int b" "of_int b < (2::rat) powi bitlen b"
    using pb
    by (simp_all add: power_int_def)
  have bpos: "(0::rat) < of_int b" using assms(2) by simp
  have lo: "(2::rat) powi (d - 1) < of_int a / of_int b"
  proof -
    have "(2::rat) powi (d - 1) * of_int b < 2 powi (d - 1) * 2 powi bitlen b"
      using b(2) by simp
    also have "\<dots> = 2 powi (bitlen a - 1)"
      by (simp add: d_def power_int_add [symmetric])
    also have "\<dots> \<le> of_int a" by (rule a(1))
    finally show ?thesis using bpos by (simp add: pos_less_divide_eq)
  qed
  have hi: "of_int a / of_int b < (2::rat) powi (d + 1)"
  proof -
    have "of_int a < (2::rat) powi bitlen a" by (rule a(2))
    also have "\<dots> = 2 powi (d + 1) * 2 powi (bitlen b - 1)"
      by (simp add: d_def power_int_add [symmetric])
    also have "\<dots> \<le> 2 powi (d + 1) * of_int b"
      using b(1) by simp
    finally show ?thesis using bpos by (simp add: pos_divide_less_eq)
  qed
  show "(2::rat) powi binade a b \<le> of_int a / of_int b"
    using lo by (auto simp: binade_def d_def [symmetric] Let_def)
  show "of_int a / of_int b < (2::rat) powi (binade a b + 1)"
    using hi by (auto simp: binade_def d_def [symmetric] Let_def not_le)
qed


lemma powi_less_imp_less: "(2::rat) powi m < 2 powi n \<Longrightarrow> m < n"
proof (rule ccontr)
  assume less: "(2::rat) powi m < 2 powi n" and "\<not> m < n"
  then have "n \<le> m" by simp
  then have "(2::rat) powi n \<le> 2 powi m"
    by (intro power_int_increasing) simp_all
  with less show False by simp
qed

lemma py_true_div_ceiling:
  assumes "0 \<le> a" and "a < 2 ^ 53" and "0 < b" and "b \<le> 2 ^ 53"
  shows "\<exists>r. py_true_div a b = Inr r \<and> \<lceil>r\<rceil> = \<lceil>(of_int a :: rat) / of_int b\<rceil>"
proof (cases "a = 0")
  case True
  with assms(3) show ?thesis by (simp add: py_true_div_def)
next
  case False
  with assms(1) have apos: "0 < a" by simp
  define x where "x = (of_int a :: rat) / of_int b"
  define e where "e = binade a b"
  define ulp where "ulp = (2::rat) powi (e - 52)"
  define n where "n = round_half_even (x / ulp)"
  define r where "r = of_int n * ulp"
  define c where "c = \<lceil>x\<rceil>"
  have bpos: "(0::rat) < of_int b" using assms(3) by simp
  have xpos: "0 < x" using apos assms(3) by (simp add: x_def)
  have lo: "(2::rat) powi e \<le> x" and hi: "x < (2::rat) powi (e + 1)"
    using binade_bounds [OF apos assms(3)] by (simp_all add: e_def x_def)
  have upos: "0 < ulp" by (simp add: ulp_def)
  have a53: "(of_int a :: rat) < 2 ^ 53"
  proof -
    have "(of_int a :: rat) < of_int (2 ^ 53)"
      using assms(2) by (simp only: of_int_less_iff)
    then show ?thesis by simp
  qed
  have b53: "(of_int b :: rat) \<le> 2 ^ 53"
  proof -
    have "(of_int b :: rat) \<le> of_int (2 ^ 53)"
      using assms(4) by (simp only: of_int_le_iff)
    then show ?thesis by simp
  qed
  have a1: "(1::rat) \<le> of_int a" and b1: "(1::rat) \<le> of_int b"
    using apos assms(3) by simp_all
  have xa: "x \<le> of_int a"
    using a1 b1 bpos by (simp add: x_def pos_divide_le_eq mult_le_cancel_left1)
  \<comment> \<open>the quotient is at least \<open>2\<^sup>-\<^sup>5\<^sup>3\<close>, far above the subnormal range\<close>
  have "(1::rat) / 2 ^ 53 \<le> 1 / of_int b"
    using b53 bpos by (simp add: divide_simps)
  also have "\<dots> \<le> x"
    using a1 bpos by (simp add: x_def divide_right_mono)
  finally have "(2::rat) powi (- 53) \<le> x"
    by (simp add: power_int_minus divide_simps)
  from this hi have "(2::rat) powi (- 53) < 2 powi (e + 1)" by (rule le_less_trans)
  then have "- 53 < e + 1" by (rule powi_less_imp_less)
  then have e_lo: "- 1022 \<le> e" by simp
  have c1: "1 \<le> c" using xpos by (simp add: c_def)
  have cx: "of_int c - 1 < x" "x \<le> of_int c"
    unfolding c_def by linarith+
  \<comment> \<open>the quotient exceeds \<open>c - 1\<close> by at least \<open>1 / b\<close>\<close>
  have "(of_int c - 1) * of_int b < (of_int a :: rat)"
    using cx(1) bpos by (simp add: x_def pos_less_divide_eq)
  then have "(c - 1) * b < a"
    by (metis of_int_1 of_int_diff of_int_less_iff of_int_mult)
  then have "(c - 1) * b + 1 \<le> a" by simp
  then have "(of_int ((c - 1) * b + 1) :: rat) \<le> of_int a"
    by (simp only: of_int_le_iff)
  then have "(of_int ((c - 1) * b + 1) :: rat) / of_int b \<le> of_int a / of_int b"
    using bpos by (intro divide_right_mono) simp_all
  moreover have "(of_int ((c - 1) * b + 1) :: rat) / of_int b = of_int c - 1 + 1 / of_int b"
    using bpos by (simp add: field_simps)
  ultimately have gap: "of_int c - 1 + 1 / of_int b \<le> x"
    by (simp add: x_def)
  \<comment> \<open>rounding moves the quotient by less than \<open>1 / b\<close>\<close>
  have "\<bar>of_int n - x / ulp\<bar> \<le> 1 / 2"
    unfolding n_def by (rule round_half_even_error)
  then have "\<bar>of_int n - x / ulp\<bar> * ulp \<le> 1 / 2 * ulp"
    using upos by (intro mult_right_mono) simp_all
  moreover have "r - x = (of_int n - x / ulp) * ulp"
    using upos by (simp add: r_def left_diff_distrib)
  then have "\<bar>r - x\<bar> = \<bar>of_int n - x / ulp\<bar> * ulp"
    using upos by (simp only: abs_mult abs_of_pos)
  ultimately have err: "\<bar>r - x\<bar> \<le> ulp / 2"
    by simp
  have "ulp = 2 powi e / 2 ^ 52"
    by (simp add: ulp_def power_int_diff)
  also have "\<dots> \<le> x / 2 ^ 52"
    using lo by (simp add: divide_right_mono)
  finally have "ulp / 2 \<le> x / 2 ^ 53" by simp
  also have "\<dots> = of_int a / 2 ^ 53 / of_int b"
    by (simp add: x_def)
  also have "\<dots> < 1 / of_int b"
  proof -
    from a53 have "(of_int a :: rat) / 2 ^ 53 < 1" by simp
    then show ?thesis using bpos by (rule divide_strict_right_mono)
  qed
  finally have small: "ulp / 2 < 1 / of_int b" .
  from err small have close: "\<bar>r - x\<bar> < 1 / of_int b" by linarith
  have lower: "of_int c - 1 < r"
    using close gap by linarith
  have upper: "r \<le> of_int c"
  proof (cases "x = of_int c")
    case True
    from lo True have "(2::rat) powi e \<le> of_int c" by simp
    also have "(of_int c :: rat) \<le> of_int a"
      using xa True by simp
    also have "\<dots> < 2 powi 53"
      using a53 by simp
    finally have "(2::rat) powi e < 2 powi 53" .
    then have e53: "e < 53" by (rule powi_less_imp_less)
    have "x / ulp = of_int c * 2 powi (52 - e)"
      by (simp add: True ulp_def power_int_diff divide_simps)
    also have "\<dots> = of_int (c * 2 ^ nat (52 - e))"
      using e53 by (simp add: power_int_def)
    finally have "n = c * 2 ^ nat (52 - e)"
      unfolding n_def by (simp only: round_half_even_of_int)
    then have "r = of_int c * (2 powi (52 - e) * 2 powi (e - 52))"
      using e53 by (simp add: r_def ulp_def power_int_def)
    also have "2 powi (52 - e) * (2::rat) powi (e - 52) = 1"
      by (simp add: power_int_add [symmetric])
    finally show ?thesis by simp
  next
    case False
    with cx(2) have "x < of_int c" by simp
    then have "of_int a < (of_int c :: rat) * of_int b"
      using bpos by (simp add: x_def pos_divide_less_eq)
    then have "a < c * b"
      by (metis of_int_less_iff of_int_mult)
    then have "a + 1 \<le> c * b" by simp
    then have "(of_int (a + 1) :: rat) \<le> of_int (c * b)"
      by (simp only: of_int_le_iff)
    then have "(of_int (a + 1) :: rat) / of_int b \<le> of_int (c * b) / of_int b"
      using bpos by (intro divide_right_mono) simp_all
    moreover have "(of_int (a + 1) :: rat) / of_int b = x + 1 / of_int b"
      using bpos by (simp add: x_def field_simps)
    moreover have "(of_int (c * b) :: rat) / of_int b = of_int c"
      using bpos by simp
    ultimately have "x + 1 / of_int b \<le> of_int c"
      by simp
    with close show ?thesis by linarith
  qed
  have ceil: "\<lceil>r\<rceil> = c"
    using lower upper by (intro ceiling_unique) simp_all
  have "r \<le> of_int a"
  proof -
    have "(of_int c :: rat) < x + 1" using cx(1) by simp
    with xa have "(of_int c :: rat) < of_int (a + 1)" by simp
    then have "c < a + 1" by (simp only: of_int_less_iff)
    then have "c \<le> a" by simp
    with upper show ?thesis
      by (meson of_int_le_iff order_trans)
  qed
  also note a53
  also have "(2::rat) ^ 53 < 2 ^ 1024" by simp
  finally have big: "r < 2 ^ 1024" .
  have rpos: "0 < r" using lower c1 by simp
  have "py_true_div a b = Inr r"
    using apos assms(3) e_lo xpos rpos big
    by (simp add: py_true_div_def Let_def x_def [symmetric] e_def [symmetric] max_absorb1
          ulp_def [symmetric] n_def [symmetric] r_def [symmetric] not_le)
  with ceil show ?thesis by (simp add: c_def x_def)
qed

subsection \<open>Searching\<close>

lemma filter_items_open:
  assumes "library_dir (lib d) = Some dir" and "engine (lib d)"
  shows "filter_items f d =
          (case update_thumbs (fetched f d) of
              (d5, Some e) \<Rightarrow> (d5, Some e)
            | (d5, None) \<Rightarrow>
                (case py_true_div (total_count (search_library (lib d) (searched f d)))
                        (page_size (searched f d)) of
                   Inl e \<Rightarrow> (d5, Some e)
                 | Inr q \<Rightarrow> (d5\<lparr>pages_count := \<lceil>q\<rceil>\<rparr>, None)))"
proof -
  have fs: "filter_state (fst (update_thumbs (fetched f d))) = searched f d"
    using view_eq_update_thumbs [of "fetched f d"] by (simp add: view_eq_def fetched_def)
  have d4: "(case f of None \<Rightarrow> d | Some f' \<Rightarrow> d\<lparr>filter_state := f'\<rparr>) = d\<lparr>filter_state := searched f d\<rparr>"
    by (cases f) (simp_all add: searched_def)
  obtain d5 r where u: "update_thumbs (fetched f d) = (d5, r)"
    by (cases "update_thumbs (fetched f d)")
  with fs have fs5: "filter_state d5 = searched f d" by simp
  have "filter_items f d =
          (case update_thumbs (fetched f d) of
              (d5, Some e) \<Rightarrow> (d5, Some e)
            | (d5, None) \<Rightarrow>
                (case py_true_div (total_count (search_library (lib d) (searched f d)))
                        (page_size (filter_state d5)) of
                   Inl e \<Rightarrow> (d5, Some e)
                 | Inr q \<Rightarrow> (d5\<lparr>pages_count := \<lceil>q\<rceil>\<rparr>, None)))"
    unfolding filter_items_def d4
    by (simp add: assms Let_def time_time_def fetched_def split: prod.splits option.splits)
  then show ?thesis
    by (simp add: u fs5 split: option.splits)
qed

lemma filter_items_ok:
  assumes "library_dir (lib d) \<noteq> None" and "engine (lib d)"
    and "length (items (search_library (lib d) (searched f d))) \<le> length (item_thumbs d)"
    and "0 \<le> total_count (search_library (lib d) (searched f d))"
    and "total_count (search_library (lib d) (searched f d)) < 2 ^ 53"
    and "0 < page_size (searched f d)" and "page_size (searched f d) \<le> 2 ^ 53"
  shows "snd (filter_items f d) = None"
proof -
  from assms(1) obtain dir where dir: "library_dir (lib d) = Some dir" by auto
  have "snd (update_thumbs (fetched f d)) = None"
    using assms(1,3) by (intro update_thumbs_ok) (simp_all add: fetched_def)
  moreover from py_true_div_ceiling [OF assms(4-7)] obtain r where
    "py_true_div (total_count (search_library (lib d) (searched f d)))
       (page_size (searched f d)) = Inr r"
    by blast
  ultimately show ?thesis
    by (simp add: filter_items_open [OF dir assms(2)] split_beta split: option.splits)
qed



lemma filter_items_frame:
  assumes "library_dir (lib d) \<noteq> None" and "engine (lib d)"
  shows "frame_content (fst (filter_items f d))
           = map Some (items (search_library (lib d) (searched f d)))"
proof -
  from assms(1) obtain dir where dir: "library_dir (lib d) = Some dir" by auto
  have "frame_content (fst (update_thumbs (fetched f d))) = frame_content (fetched f d)"
    using view_eq_update_thumbs [of "fetched f d"] by (simp add: view_eq_def)
  then show ?thesis
    by (simp add: filter_items_open [OF dir assms(2)] fetched_def split_beta
          split: option.splits sum.splits)
qed


subsection \<open>The selection and the populated slots\<close>

lemma frame_content_upd_thumb [simp]: "frame_content (upd_thumb idx f d) = frame_content d"
  by (simp add: upd_thumb_def)

lemma frame_content_set_selected_at [simp]:
  "frame_content (fst (set_selected_at i b d)) = frame_content d"
  by (simp add: set_selected_at_def)

lemma frame_content_mark_selected [simp]:
  "frame_content (fst (mark_selected idxs d)) = frame_content d"
proof (induction idxs arbitrary: d)
  case Nil
  show ?case by simp
next
  case (Cons idx idxs)
  show ?case
    using Cons.IH by (cases "py_index_ok (item_thumbs d) idx") (simp_all add: set_selected_at_def)
qed

lemma frame_content_select_item [simp]:
  "frame_content (fst (select_item i a b d)) = frame_content d"
  by (simp add: select_item_def Let_def)

lemma populated_cong:
  "frame_content d' = frame_content d \<Longrightarrow> populated d' = populated d"
  by (simp add: populated_def fun_eq_iff)

lemma populated_no_holes:
  "no_holes d \<Longrightarrow> populated d i \<longleftrightarrow> 0 \<le> i \<and> i < int (length (frame_content d))"
proof -
  assume h: "no_holes d"
  have "frame_content d ! nat i \<noteq> None" if "0 \<le> i" and "i < int (length (frame_content d))"
  proof -
    from that have "frame_content d ! nat i \<in> set (frame_content d)"
      by (intro nth_mem) simp
    with h show ?thesis unfolding no_holes_def by metis
  qed
  then show ?thesis by (auto simp: populated_def)
qed

lemma selection_inv_select_item:
  assumes "selection_inv d" and "populated d i" and "no_holes d"
  shows "selection_inv (fst (select_item i a b d))"
proof -
  have p: "populated (fst (select_item i a b d)) = populated d"
    by (rule populated_cong) simp
  have range: "0 \<le> j \<and> j < int (length (frame_content d))"
    if "selected d \<noteq> []"
      and "Min (set (selected d)) \<le> j \<and> j \<le> i \<or> i \<le> j \<and> j \<le> Max (set (selected d))" for j
  proof -
    from that(1) have "Min (set (selected d)) \<in> set (selected d)"
      and "Max (set (selected d)) \<in> set (selected d)"
      by simp_all
    with assms(1) have "populated d (Min (set (selected d)))"
      and "populated d (Max (set (selected d)))"
      by (auto simp: selection_inv_def)
    with assms(2) that(2) show ?thesis
      by (auto simp: populated_def)
  qed
  show ?thesis
    unfolding selection_inv_def p selected_select_item
    using assms range
    by (auto simp: selection_inv_def populated_no_holes dest: notin_set_remove1)
qed

lemma selection_inv_clear_select: "selection_inv (clear_select_action_callback d)"
  by (simp add: selection_inv_def clear_select_action_callback_def)

lemma selection_inv_select_all:
  assumes "no_holes d"
  shows "selection_inv (fst (select_all_action_callback d))"
proof -
  have "populated (fst (select_all_action_callback d)) = populated d"
    by (rule populated_cong) (simp add: select_all_action_callback_def Let_def)
  moreover have "no_holes (d\<lparr>selected := s\<rparr>)" for s
    using assms by (simp add: no_holes_def)
  ultimately show ?thesis
    using assms
    by (auto simp: selection_inv_def select_all_action_callback_def Let_def populated_no_holes)
qed

lemma selection_inv_close_library:
  "selection_inv d \<Longrightarrow> selection_inv (close_library is_shutdown d)"
  by (simp add: selection_inv_def close_library_def populated_def Let_def time_time_def)

lemma selection_inv_filter_items_empty:
  "selected d = [] \<Longrightarrow> selection_inv (fst (filter_items f d))"
  by (simp add: selection_inv_def filter_items_keeps)

text \<open>
  Claim C4: the selection holds indices of populated slots only, and every operation
  keeps it so. \<^verbatim>\<open>select_item\<close>, select-all, clear-select and
  \<^verbatim>\<open>close_library\<close> do (lemmas above, on a frame without emptied slots), and so does
  \<^verbatim>\<open>filter_items\<close> when nothing is selected. But \<^verbatim>\<open>filter_items\<close> replaces the
  frame and leaves \<^verbatim>\<open>self.selected\<close> as it is: with slot 5 selected on the first page
  of the example, moving to the last page, which has three entries, keeps the
  selection \<open>[5]\<close> over a frame of three slots.
\<close>

theorem C4_page_move_keeps_stale_selection:
  "selection_inv slot_5_selected
   \<and> selected slot_5_selected = [5]
   \<and> snd (page_move None (Some 2) slot_5_selected) = None
   \<and> selected (fst (page_move None (Some 2) slot_5_selected)) = [5]
   \<and> length (frame_content (fst (page_move None (Some 2) slot_5_selected))) = 3
   \<and> \<not> selection_inv (fst (page_move None (Some 2) slot_5_selected))"
  by code_simp

theorem C4_page_move_keeps_stale_selection_witness:
  "5 \<in> set (selected (fst (page_move None (Some 2) slot_5_selected)))
   \<and> \<not> populated (fst (page_move None (Some 2) slot_5_selected)) 5"
  using C4_page_move_keeps_stale_selection
  by (auto simp: selection_inv_def)

subsection \<open>The jobs of a refresh\<close>

lemma populated_idxs_simps [simp]:
  "populated_idxs [] = []"
  "populated_idxs ((idx, Some (Some e), t) # rest) = idx # populated_idxs rest"
  "populated_idxs ((idx, Some None, t) # rest) = populated_idxs rest"
  "populated_idxs ((idx, None, t) # rest) = populated_idxs rest"
  by (simp_all add: populated_idxs_def is_populated_def)

lemma show_placeholders_queue:
  "snd (show_placeholders slots d) = None \<Longrightarrow>
   thumb_job_queue (fst (show_placeholders slots d))
     = thumb_job_queue d @ map (\<lambda>idx. placeholder_job idx d) (populated_idxs slots)"
proof (induction slots arbitrary: d)
  case Nil
  show ?case by simp
next
  case (Cons slot rest)
  obtain idx entry item_thumb where slot: "slot = (idx, entry, item_thumb)"
    by (cases slot) auto
  from Cons.prems obtain t where t: "item_thumb = Some t"
    by (cases item_thumb) (auto simp: slot split: option.splits)
  have same: "placeholder_job i (put j (upd_thumb idx f d)) = placeholder_job i d"
    "placeholder_job i (upd_thumb idx f d) = placeholder_job i d" for i j f
    by (simp_all add: placeholder_job_def put_def upd_thumb_def)
  have q: "thumb_job_queue (put j (upd_thumb idx f d)) = thumb_job_queue d @ [j]"
    "thumb_job_queue (upd_thumb idx f d) = thumb_job_queue d" for j f
    by (simp_all add: put_def upd_thumb_def)
  show ?case
  proof (cases entry)
    case None
    with Cons.prems Cons.IH show ?thesis
      by (simp add: slot t same q)
  next
    case outer: (Some eo)
    show ?thesis
    proof (cases eo)
      case None
      with outer Cons.prems Cons.IH show ?thesis
        by (simp add: slot t same q)
    next
      case (Some e)
      with outer Cons.prems Cons.IH show ?thesis
        by (simp add: slot t same q)
    qed
  qed
qed

lemma show_rendered_queue:
  "snd (show_rendered slots d) = None \<Longrightarrow>
   \<exists>real. thumb_job_queue (fst (show_rendered slots d)) = thumb_job_queue d @ real
     \<and> map renderer real = concat (map (\<lambda>idx. [idx, idx]) (populated_idxs slots))
     \<and> (\<forall>j \<in> set real. \<not> is_loading j \<and> job_timestamp j \<noteq> Float_max)"
proof (induction slots arbitrary: d)
  case Nil
  show ?case by simp
next
  case (Cons slot rest)
  obtain idx entry item_thumb where slot: "slot = (idx, entry, item_thumb)"
    by (cases slot) auto
  show ?case
  proof (cases "is_populated slot")
    case False
    then have "show_rendered (slot # rest) d = show_rendered rest d"
      and "populated_idxs (slot # rest) = populated_idxs rest"
      by (auto simp: slot is_populated_def populated_idxs_def split: option.splits)
    with Cons.prems Cons.IH [of d] show ?thesis by simp
  next
    case True
    then obtain e where e: "entry = Some (Some e)"
      by (auto simp: slot is_populated_def split: option.splits)
    from Cons.prems obtain dir where dir: "library_dir (lib d) = Some dir"
      by (cases "library_dir (lib d)") (auto simp: slot e)
    from Cons.prems obtain t where t: "item_thumb = Some t"
      by (cases item_thumb) (auto simp: slot e dir Let_def split_beta)
    define fp where "fp = path_join dir (entry_path e)"
    define j1 where "j1 = content_job idx (time_readings d (time_calls d)) fp
                            (d\<lparr>time_calls := Suc (time_calls d)\<rparr>)"
    define d3 where "d3 = upd_thumb idx (\<lambda>t. t\<lparr>border_selected :=
        py_in (PyTuple [mode_val (item_thumbs d ! idx), item_id (item_thumbs d ! idx)])
              (map PyInt (selected d))\<rparr>) (put j1 (d\<lparr>time_calls := Suc (time_calls d)\<rparr>))"
    define j2 where "j2 = content_job idx (time_readings d (Suc (time_calls d))) fp
                            (d3\<lparr>time_calls := Suc (Suc (time_calls d))\<rparr>)"
    define d4 where "d4 = put j2 (d3\<lparr>time_calls := Suc (Suc (time_calls d))\<rparr>)"
    have step: "show_rendered (slot # rest) d = show_rendered rest d4"
      by (simp add: slot e dir t Let_def split_beta time_time_def d4_def j2_def d3_def j1_def
            fp_def put_def upd_thumb_def)
    have q: "thumb_job_queue d4 = thumb_job_queue d @ [j1, j2]"
      by (simp add: d4_def d3_def put_def upd_thumb_def)
    have j: "renderer j1 = idx" "renderer j2 = idx" "\<not> is_loading j1" "\<not> is_loading j2"
      "job_timestamp j1 \<noteq> Float_max" "job_timestamp j2 \<noteq> Float_max"
      by (simp_all add: j1_def j2_def content_job_def)
    from Cons.prems step have "snd (show_rendered rest d4) = None" by simp
    from Cons.IH [OF this] obtain real where real:
      "thumb_job_queue (fst (show_rendered rest d4)) = thumb_job_queue d4 @ real"
      "map renderer real = concat (map (\<lambda>idx. [idx, idx]) (populated_idxs rest))"
      "\<forall>j \<in> set real. \<not> is_loading j \<and> job_timestamp j \<noteq> Float_max"
      by blast
    show ?thesis
    proof (intro exI conjI)
      show "thumb_job_queue (fst (show_rendered (slot # rest) d))
              = thumb_job_queue d @ (j1 # j2 # real)"
        by (simp add: step real(1) q)
      show "map renderer (j1 # j2 # real)
              = concat (map (\<lambda>idx. [idx, idx]) (populated_idxs (slot # rest)))"
        by (simp add: slot e j real(2))
      show "\<forall>j \<in> set (j1 # j2 # real). \<not> is_loading j \<and> job_timestamp j \<noteq> Float_max"
        using real(3) j by simp
    qed
  qed
qed

lemma update_thumbs_queue:
  assumes "snd (update_thumbs d) = None"
  shows "\<exists>real. thumb_job_queue (fst (update_thumbs d))
           = map (\<lambda>idx. placeholder_job idx d)
               (populated_idxs (enumerate 0 (zip_longest (frame_content d) (item_thumbs d))))
             @ real
     \<and> map renderer real
         = concat (map (\<lambda>idx. [idx, idx])
             (populated_idxs (enumerate 0 (zip_longest (frame_content d) (item_thumbs d)))))
     \<and> (\<forall>j \<in> set real. \<not> is_loading j \<and> job_timestamp j \<noteq> Float_max)"
proof -
  define d1 where "d1 = cancel_thumb_jobs d"
  define slots where "slots = enumerate 0 (zip_longest (frame_content d1) (item_thumbs d1))"
  have d1: "frame_content d1 = frame_content d" "item_thumbs d1 = item_thumbs d"
    "thumb_job_queue d1 = []" "placeholder_job i d1 = placeholder_job i d" for i
    by (simp_all add: d1_def cancel_thumb_jobs_def time_time_def placeholder_job_def)
  have u: "update_thumbs d =
          (case show_placeholders slots d1 of
             (d2, Some e) \<Rightarrow> (d2, Some e)
           | (d2, None) \<Rightarrow> show_rendered slots d2)"
    by (simp add: update_thumbs_def d1_def slots_def Let_def split_beta time_time_def
          split: option.splits)
  obtain d2 r where p: "show_placeholders slots d1 = (d2, r)"
    by (cases "show_placeholders slots d1")
  with assms u have r: "r = None" and sr: "snd (show_rendered slots d2) = None"
    by (auto split: option.splits)
  from show_placeholders_queue [of slots d1] p r
  have q2: "thumb_job_queue d2 = map (\<lambda>idx. placeholder_job idx d) (populated_idxs slots)"
    by (simp add: d1)
  from show_rendered_queue [OF sr] obtain real where
    "thumb_job_queue (fst (show_rendered slots d2)) = thumb_job_queue d2 @ real"
    "map renderer real = concat (map (\<lambda>idx. [idx, idx]) (populated_idxs slots))"
    "\<forall>j \<in> set real. \<not> is_loading j \<and> job_timestamp j \<noteq> Float_max"
    by blast
  then show ?thesis
    using u p r q2 by (auto simp: slots_def d1)
qed

lemma update_thumbs_three_jobs:
  assumes "snd (update_thumbs d) = None"
  shows "length (jobs_of idx (thumb_job_queue (fst (update_thumbs d))))
           = 3 * length (filter (\<lambda>i. i = idx)
               (populated_idxs (enumerate 0 (zip_longest (frame_content d) (item_thumbs d)))))"
proof -
  have c: "length (filter (\<lambda>i. i = idx) (concat (map (\<lambda>i. [i, i]) xs)))
             = 2 * length (filter (\<lambda>i. i = idx) xs)" for xs :: "nat list"
    by (induction xs) auto
  have m: "length (filter (\<lambda>j. renderer j = idx) js)
             = length (filter (\<lambda>i. i = idx) (map renderer js))" for js :: "render_job list"
    by (induction js) auto
  from update_thumbs_queue [OF assms] obtain real where
    q: "thumb_job_queue (fst (update_thumbs d))
           = map (\<lambda>idx. placeholder_job idx d)
               (populated_idxs (enumerate 0 (zip_longest (frame_content d) (item_thumbs d))))
             @ real"
    and r: "map renderer real
         = concat (map (\<lambda>idx. [idx, idx])
             (populated_idxs (enumerate 0 (zip_longest (frame_content d) (item_thumbs d)))))"
    by blast
  have "map renderer (thumb_job_queue (fst (update_thumbs d)))
          = populated_idxs (enumerate 0 (zip_longest (frame_content d) (item_thumbs d)))
            @ concat (map (\<lambda>idx. [idx, idx])
                (populated_idxs (enumerate 0 (zip_longest (frame_content d) (item_thumbs d)))))"
    by (simp add: q r placeholder_job_def comp_def)
  then show ?thesis
    by (simp add: jobs_of_def m c)
qed

text \<open>
  Claim C3: a refresh enqueues exactly two jobs for each populated slot, the placeholder
  and one content job, all placeholders first. The placeholders do come first, one for
  each populated slot, but the second loop of \<^verbatim>\<open>update_thumbs\<close> puts the content job
  of a slot twice, so every populated slot has three jobs (lemmas
  \<open>update_thumbs_queue\<close> and \<open>update_thumbs_three_jobs\<close>). On the last page of the
  example, which has three entries:
\<close>

theorem C3_refresh_enqueues_three_jobs_per_slot:
  "map (\<lambda>j. (renderer j, is_loading j, job_filepath j)) (thumb_job_queue last_page)
     = [(0, True, Str []), (1, True, Str []), (2, True, Str []),
        (0, False, PathObj (Path True [''lib'', ''img.png''])),
        (0, False, PathObj (Path True [''lib'', ''img.png''])),
        (1, False, PathObj (Path True [''lib'', ''img.png''])),
        (1, False, PathObj (Path True [''lib'', ''img.png''])),
        (2, False, PathObj (Path True [''lib'', ''img.png''])),
        (2, False, PathObj (Path True [''lib'', ''img.png'']))]
   \<and> length (jobs_of 0 (thumb_job_queue last_page)) = 3
   \<and> length (jobs_of 0 (thumb_job_queue last_page)) \<noteq> 2"
  by code_simp

subsection \<open>Restoring the selection borders\<close>

lemma py_in_tuple_ints: "\<not> py_in (PyTuple vs) (map PyInt sel)"
  by (auto simp: py_in_def)

text \<open>
  Claim C5: after a refresh the border of a populated slot is on exactly when the slot's
  index is selected. The refresh looks the pair of the widget's mode and item id up in
  the list of selected indices; a pair never equals an integer (lemma
  \<open>py_in_tuple_ints\<close>), so the border is switched off. With slot 0 selected and its
  border on, a refresh leaves slot 0 selected and populated and switches its border
  off.
\<close>

theorem C5_refresh_clears_border_of_selected_slot:
  "selected slot_0_selected = [0]
   \<and> border_selected (item_thumbs slot_0_selected ! 0)
   \<and> snd (update_thumbs slot_0_selected) = None
   \<and> selected (fst (update_thumbs slot_0_selected)) = [0]
   \<and> populated (fst (update_thumbs slot_0_selected)) 0
   \<and> \<not> border_selected (item_thumbs (fst (update_thumbs slot_0_selected)) ! 0)"
  by code_simp

subsection \<open>The list of recent libraries\<close>

lemma set_alist_update: "set (AList.update k v al) \<subseteq> insert (k, v) (set al)"
  by (induction al) auto

lemma alist_update_fresh: "k \<notin> fst ` set al \<Longrightarrow> AList.update k v al = al @ [(k, v)]"
  by (induction al) auto

lemma write_back:
  "distinct (map fst xs) \<Longrightarrow> fst ` set xs \<inter> fst ` set store = {} \<Longrightarrow>
   fold (\<lambda>(item_key, item_value) store. AList.update item_key item_value store) xs store
     = store @ xs"
proof (induction xs arbitrary: store)
  case Nil
  show ?case by simp
next
  case (Cons x xs)
  obtain k v where x: "x = (k, v)" by (cases x)
  from Cons.prems have fresh: "k \<notin> fst ` set store"
    by (auto simp: x)
  from Cons.prems have "fst ` set xs \<inter> fst ` set (store @ [(k, v)]) = {}"
    by (auto simp: x)
  with Cons.IH [of "store @ [(k, v)]"] Cons.prems(1) show ?case
    by (simp add: x alist_update_fresh [OF fresh])
qed

lemma distinct_all_libs:
  "distinct (map fst (all_libs mk_path path_str now_key path_arg settings))"
proof -
  have "distinct (map fst libs) \<Longrightarrow>
        distinct (map fst (fold (\<lambda>(item_key, item_path) libs.
                 if mk_path item_path \<noteq> p then AList.update item_key item_path libs
                 else libs) settings libs))" for libs p
    by (induction settings arbitrary: libs) (auto simp: AList.distinct_update)
  then show ?thesis by (simp add: all_libs_def Let_def)
qed

lemma all_libs_entries:
  assumes "(k, v) \<in> set (all_libs mk_path path_str now_key path_arg settings)"
  shows "(k = now_key \<and> v = path_str (mk_path path_arg))
         \<or> ((k, v) \<in> set settings \<and> mk_path v \<noteq> mk_path path_arg)"
proof -
  have "(k, v) \<in> set (fold (\<lambda>(item_key, item_path) libs.
                 if mk_path item_path \<noteq> p then AList.update item_key item_path libs
                 else libs) settings libs) \<Longrightarrow>
        (k, v) \<in> set libs \<or> ((k, v) \<in> set settings \<and> mk_path v \<noteq> p)" for libs p
  proof (induction settings arbitrary: libs)
    case Nil
    then show ?case by simp
  next
    case (Cons s settings)
    obtain k' v' where s: "s = (k', v')" by (cases s)
    show ?case
    proof (cases "mk_path v' \<noteq> p")
      case True
      with Cons.prems Cons.IH [of "AList.update k' v' libs"]
      have "(k, v) \<in> set (AList.update k' v' libs) \<or> (k, v) \<in> set settings \<and> mk_path v \<noteq> p"
        by (simp add: s)
      with True set_alist_update [of k' v' libs] show ?thesis
        by (auto simp: s)
    next
      case False
      with Cons.prems Cons.IH [of libs] show ?thesis
        by (auto simp: s)
    qed
  qed
  from this [of "mk_path path_arg" "[(now_key, path_str (mk_path path_arg))]"] assms
  show ?thesis by (auto simp: all_libs_def Let_def)
qed

lemma all_libs_new_entry:
  assumes "now_key \<notin> fst ` set settings"
  shows "(now_key, path_str (mk_path path_arg))
           \<in> set (all_libs mk_path path_str now_key path_arg settings)"
proof -
  have "(k, v) \<in> set libs \<Longrightarrow> k \<notin> fst ` set settings \<Longrightarrow>
        (k, v) \<in> set (fold (\<lambda>(item_key, item_path) libs.
                 if mk_path item_path \<noteq> p then AList.update item_key item_path libs
                 else libs) settings libs)" for libs p k v
  proof (induction settings arbitrary: libs)
    case Nil
    then show ?case by simp
  next
    case (Cons s settings)
    obtain k' v' where s: "s = (k', v')" by (cases s)
    from Cons.prems have "k \<noteq> k'" by (auto simp: s)
    then have "(k, v) \<in> set (AList.update k' v' libs)"
      using Cons.prems(1) by (induction libs) auto
    with Cons.prems Cons.IH [of "AList.update k' v' libs"] Cons.IH [of libs] show ?case
      by (auto simp: s)
  qed
  from this [of now_key "path_str (mk_path path_arg)" "[(now_key, path_str (mk_path path_arg))]"]
    assms
  show ?thesis by (simp add: all_libs_def Let_def)
qed

lemma py_sorted_reverse_props:
  "set (py_sorted_reverse xs) = set xs"
  "length (py_sorted_reverse xs) = length xs"
  "distinct (map fst (py_sorted_reverse xs)) = distinct (map fst xs)"
  "sorted (rev (map fst (py_sorted_reverse xs)))"
proof -
  show "set (py_sorted_reverse xs) = set xs" "length (py_sorted_reverse xs) = length xs"
    by (simp_all add: py_sorted_reverse_def)
  have "distinct (map fst (sort_key fst zs)) = distinct (map fst zs)" for zs :: "('a \<times> 'b) list"
    by (induction zs) (simp_all add: distinct_insort_key)
  note a = this
  have "distinct (map fst (rev (sort_key fst (rev xs))))
          = distinct (rev (map fst (sort_key fst (rev xs))))"
    by (simp only: rev_map)
  also have "\<dots> = distinct (map fst (sort_key fst (rev xs)))"
    by (simp only: distinct_rev)
  also have "\<dots> = distinct (map fst (rev xs))"
    by (rule a)
  also have "\<dots> = distinct (rev (map fst xs))"
    by (simp only: rev_map)
  also have "\<dots> = distinct (map fst xs)"
    by (simp only: distinct_rev)
  finally show "distinct (map fst (py_sorted_reverse xs)) = distinct (map fst xs)"
    by (simp only: py_sorted_reverse_def)
  show "sorted (rev (map fst (py_sorted_reverse xs)))"
    by (simp add: py_sorted_reverse_def rev_map [symmetric])
qed

lemma update_libs_list_eq:
  "update_libs_list mk_path path_str now_key path_arg settings
     = take item_limit (py_sorted_reverse (all_libs mk_path path_str now_key path_arg settings))"
proof -
  have "distinct (map fst (take item_limit
          (py_sorted_reverse (all_libs mk_path path_str now_key path_arg settings))))"
    by (simp add: take_map [symmetric] py_sorted_reverse_props distinct_all_libs)
  then show ?thesis
    by (simp add: update_libs_list_def Let_def write_back)
qed

lemma descending_hd:
  assumes "sorted (rev (map fst ys))" and "distinct (map fst ys)"
    and "(k, v) \<in> set ys" and "\<forall>k' \<in> fst ` set ys. k' \<le> k"
  shows "ys \<noteq> [] \<and> hd ys = (k, v)"
proof (cases ys)
  case Nil
  with assms(3) show ?thesis by simp
next
  case (Cons y rest)
  have "k \<le> fst y"
  proof (cases "(k, v) = y")
    case True
    then show ?thesis by auto
  next
    case False
    with assms(3) Cons have "k \<in> set (map fst rest)" by force
    with assms(1) Cons show ?thesis
      by (auto simp: sorted_append)
  qed
  moreover from assms(4) Cons have "fst y \<le> k" by simp
  ultimately have "fst y = k" by simp
  with assms(2,3) Cons have "y = (k, v)"
    by (cases y) (auto simp: image_iff)
  with Cons show ?thesis by simp
qed


subsection \<open>Cancelling the pending jobs\<close>


lemma queue_stamped_upd_thumb [simp]: "queue_stamped lo (upd_thumb idx f d) = queue_stamped lo d"
  by (simp add: queue_stamped_def upd_thumb_def)









subsection \<open>Page count and page clamp\<close>




subsection \<open>What the recent-libraries group holds\<close>

lemma keys_alist_update: "fst ` set (AList.update k v al) = insert k (fst ` set al)"
  by (induction al) auto

lemma all_libs_keys:
  "fst ` set (all_libs mk_path path_str now_key path_arg settings)
     = insert now_key (fst ` {e \<in> set settings. mk_path (snd e) \<noteq> mk_path path_arg})"
proof -
  have "fst ` set (fold (\<lambda>(item_key, item_path) libs.
                 if mk_path item_path \<noteq> p then AList.update item_key item_path libs
                 else libs) settings libs)
          = fst ` set libs \<union> fst ` {e \<in> set settings. mk_path (snd e) \<noteq> p}" for libs p
  proof (induction settings arbitrary: libs)
    case Nil
    show ?case by simp
  next
    case (Cons s settings)
    obtain k v where s: "s = (k, v)" by (cases s)
    show ?case
    proof (cases "mk_path v \<noteq> p")
      case True
      then have "{e \<in> set (s # settings). mk_path (snd e) \<noteq> p}
                   = insert (k, v) {e \<in> set settings. mk_path (snd e) \<noteq> p}"
        by (auto simp: s)
      with True show ?thesis
        by (simp add: s Cons.IH keys_alist_update)
    next
      case False
      then have "{e \<in> set (s # settings). mk_path (snd e) \<noteq> p}
                   = {e \<in> set settings. mk_path (snd e) \<noteq> p}"
        by (auto simp: s)
      with False show ?thesis
        by (simp add: s Cons.IH)
    qed
  qed
  then show ?thesis by (simp add: all_libs_def Let_def)
qed

lemma length_all_libs:
  "length (all_libs mk_path path_str now_key path_arg settings)
     = card (insert now_key (fst ` {e \<in> set settings. mk_path (snd e) \<noteq> mk_path path_arg}))"
proof -
  have "length (all_libs mk_path path_str now_key path_arg settings)
          = length (map fst (all_libs mk_path path_str now_key path_arg settings))"
    by simp
  also have "\<dots> = card (set (map fst (all_libs mk_path path_str now_key path_arg settings)))"
    using distinct_all_libs [of mk_path path_str now_key path_arg settings]
    by (rule distinct_card [symmetric])
  finally show ?thesis by (simp add: all_libs_keys)
qed

text \<open>
  Claim C9, as stated: after every call the path just opened is listed first. The order
  is that of the keys, compared as strings, and the key of the call need not be the
  greatest: with an entry stored under the key of a later clock, that entry comes first
  and the path just opened second.
\<close>

theorem C9_later_key_listed_first_counterexample:
  "update_libs_list example_Path (\<lambda>p. p) ''1700000007.5'' ''/a'' later_key_settings
     = [(''1700000009.0'', ''/z''), (''1700000007.5'', ''/a''), (''1700000006.5'', ''/b''),
        (''1700000004.0'', ''/c''), (''1700000003.0'', ''/d'')]
   \<and> hd (update_libs_list example_Path (\<lambda>p. p) ''1700000007.5'' ''/a'' later_key_settings)
       \<noteq> (''1700000007.5'', ''/a'')"
  by code_simp

text \<open>
  Claim C9, amended: after \<^verbatim>\<open>update_libs_list\<close> the group holds the entries with
  the greatest keys among the new entry and the stored entries of other paths, five of
  them or all when there are fewer, in descending order of their keys, each key once;
  the entries dropped are those with the least keys. When the key of the call is greater
  than every key already stored, the path just opened comes first.
\<close>

theorem C9_update_libs_list_newest_five:
  "length (update_libs_list mk_path path_str now_key path_arg settings)
     = min 5 (card (insert now_key
                      (fst ` {e \<in> set settings. mk_path (snd e) \<noteq> mk_path path_arg})))
   \<and> sorted (rev (map fst (update_libs_list mk_path path_str now_key path_arg settings)))
   \<and> distinct (map fst (update_libs_list mk_path path_str now_key path_arg settings))
   \<and> set (update_libs_list mk_path path_str now_key path_arg settings)
       \<subseteq> set (all_libs mk_path path_str now_key path_arg settings)
   \<and> set (all_libs mk_path path_str now_key path_arg settings)
       \<subseteq> insert (now_key, path_str (mk_path path_arg))
            {e \<in> set settings. mk_path (snd e) \<noteq> mk_path path_arg}
   \<and> (\<forall>dropped \<in> set (all_libs mk_path path_str now_key path_arg settings)
                     - set (update_libs_list mk_path path_str now_key path_arg settings).
        \<forall>kept \<in> set (update_libs_list mk_path path_str now_key path_arg settings).
          fst dropped \<le> fst kept)
   \<and> ((\<forall>k \<in> fst ` set settings. k < now_key) \<longrightarrow>
        update_libs_list mk_path path_str now_key path_arg settings \<noteq> []
        \<and> hd (update_libs_list mk_path path_str now_key path_arg settings)
            = (now_key, path_str (mk_path path_arg)))"
proof -
  define libs where "libs = all_libs mk_path path_str now_key path_arg settings"
  define ys where "ys = py_sorted_reverse libs"
  have res: "update_libs_list mk_path path_str now_key path_arg settings = take 5 ys"
    by (simp add: update_libs_list_eq ys_def libs_def item_limit_def)
  have ys: "set ys = set libs" "distinct (map fst ys)" "sorted (rev (map fst ys))"
    "length ys = length libs"
    by (simp_all add: ys_def py_sorted_reverse_props libs_def distinct_all_libs)
  have 1: "length (take 5 ys)
             = min 5 (card (insert now_key
                 (fst ` {e \<in> set settings. mk_path (snd e) \<noteq> mk_path path_arg})))"
    by (simp add: ys(4) libs_def length_all_libs min.commute)
  have "sorted (rev (map fst (take 5 ys @ drop 5 ys)))"
    using ys(3) by simp
  then have desc: "sorted (rev (map fst (take 5 ys)))"
    and cross: "\<forall>a \<in> set (drop 5 ys). \<forall>b \<in> set (take 5 ys). fst a \<le> fst b"
    unfolding map_append rev_append sorted_append by auto
  have 2: "distinct (map fst (take 5 ys))"
    using ys(2) by (simp add: take_map [symmetric])
  have 3: "set (take 5 ys) \<subseteq> set libs"
    using ys(1) set_take_subset [of 5 ys] by simp
  have 6: "set libs \<subseteq> insert (now_key, path_str (mk_path path_arg))
                         {e \<in> set settings. mk_path (snd e) \<noteq> mk_path path_arg}"
  proof
    fix e assume "e \<in> set libs"
    then have "(fst e, snd e) \<in> set (all_libs mk_path path_str now_key path_arg settings)"
      by (simp add: libs_def)
    from all_libs_entries [OF this]
    show "e \<in> insert (now_key, path_str (mk_path path_arg))
                  {e \<in> set settings. mk_path (snd e) \<noteq> mk_path path_arg}"
      by (auto simp: prod_eq_iff)
  qed
  have 4: "\<forall>dropped \<in> set libs - set (take 5 ys). \<forall>kept \<in> set (take 5 ys).
             fst dropped \<le> fst kept"
  proof
    fix dropped assume "dropped \<in> set libs - set (take 5 ys)"
    then have "dropped \<in> set (take 5 ys @ drop 5 ys)" and "dropped \<notin> set (take 5 ys)"
      using ys(1) by simp_all
    then have "dropped \<in> set (drop 5 ys)"
      unfolding set_append by blast
    with cross show "\<forall>kept \<in> set (take 5 ys). fst dropped \<le> fst kept" by blast
  qed
  have 5: "take 5 ys \<noteq> [] \<and> hd (take 5 ys) = (now_key, path_str (mk_path path_arg))"
    if older: "\<forall>k \<in> fst ` set settings. k < now_key"
  proof -
    from older have "now_key \<notin> fst ` set settings" by auto
    then have new: "(now_key, path_str (mk_path path_arg)) \<in> set ys"
      unfolding ys(1) libs_def by (rule all_libs_new_entry)
    have "\<forall>k' \<in> fst ` set ys. k' \<le> now_key"
    proof
      fix k' assume "k' \<in> fst ` set ys"
      then obtain v' where "(k', v') \<in> set libs" using ys(1) by auto
      from all_libs_entries [OF this [unfolded libs_def]] older show "k' \<le> now_key"
        by (auto simp: image_iff dest!: bspec)
    qed
    from descending_hd [OF ys(3) ys(2) new this]
    show ?thesis by (cases ys) simp_all
  qed
  show ?thesis
    unfolding res libs_def [symmetric] using 1 desc 2 3 6 4 5 by blast
qed

theorem C9_update_libs_list_newest_five_witness:
  "update_libs_list example_Path (\<lambda>p. p) ''1700000007.5'' ''/a'' example_settings
       = [(''1700000007.5'', ''/a''), (''1700000006.5'', ''/b''), (''1700000004.0'', ''/c''),
          (''1700000003.0'', ''/d''), (''1700000002.0'', ''/e'')]
   \<and> hd (update_libs_list example_Path (\<lambda>p. p) ''1700000007.5'' ''/a'' example_settings)
       = (''1700000007.5'', ''/a'')"
proof -
  have older: "\<forall>k \<in> fst ` set example_settings. k < ''1700000007.5''"
    by code_simp
  have result: "update_libs_list example_Path (\<lambda>p. p) ''1700000007.5'' ''/a'' example_settings
       = [(''1700000007.5'', ''/a''), (''1700000006.5'', ''/b''), (''1700000004.0'', ''/c''),
          (''1700000003.0'', ''/d''), (''1700000002.0'', ''/e'')]"
    by code_simp
  have path: "example_Path ''/a'' = ''/a''"
    by (simp add: example_Path_def)
  show ?thesis
    using C9_update_libs_list_newest_five
            [of example_Path "\<lambda>p. p" "''1700000007.5''" "''/a''" example_settings]
          older result path
    by simp
qed




end
